theory Spec2Isabelle
  imports Main "HOL-Library.Word" "HOL-Library.Multiset"
begin

section \<open>The thread pool of \<^verbatim>\<open>cpp/src/thread_pool.cpp\<close>\<close>

text \<open>
  The class \<^verbatim>\<open>ThreadPool\<close> owns a vector of worker threads, a queue of tasks, a
  mutex, a condition variable and the flag \<^verbatim>\<open>stop\<close>. Every access to the queue and
  to the flag happens with \<^verbatim>\<open>queue_mutex\<close> held, so each locked block is one
  indivisible step of the model, and a run of the program is a sequence of such steps
  taken by the worker threads, by the callers of \<^verbatim>\<open>enqueue\<close> and by the thread that
  runs the destructor, in any interleaving.
\<close>

subsection \<open>Data\<close>

text \<open>
  Where a worker thread stands in its loop (lines 20 to 34):
  \<^item> \<open>Ready\<close>: runnable, about to take the mutex and to evaluate the predicate of
    \<^verbatim>\<open>condition.wait\<close> (at the top of the loop, or woken from the wait);
  \<^item> \<open>Waiting\<close>: suspended inside \<^verbatim>\<open>condition.wait\<close>, mutex released;
  \<^item> \<open>Executing t\<close>: past the locked block, holding the task it moved out of the
    queue, at or inside \<^verbatim>\<open>task()\<close> on line 33;
  \<^item> \<open>Terminated\<close>: returned from the thread function on line 27;
  \<^item> \<open>Crashed t\<close>: the call \<^verbatim>\<open>task()\<close> of the task \<open>t\<close> it held threw. The
    lambda has no handler, so the exception left the thread function: the thread
    takes no step any more and never returns from its function.
\<close>

datatype 't worker = Ready | Waiting | Executing 't | Terminated | Crashed 't

text \<open>
  Where the destructor stands (lines 48 to 57): not entered, flag set and
  \<^verbatim>\<open>notify_all\<close> still to come, joining worker number \<open>k\<close>, returned.
\<close>

datatype phase = Live | Flagged | Joining nat | Destroyed

text \<open>
  The members of the class are \<open>workers\<close>, \<open>tasks\<close> and \<open>stop\<close>; the mutex is the
  atomicity of the steps and the wait set of the condition variable is the set of
  workers that are \<open>Waiting\<close>. The other fields are the surroundings of the pool:
  \<^item> \<open>shared\<close>: the state the submitted closures capture by reference (the atomic
    counter of \<^verbatim>\<open>main\<close>);
  \<^item> \<open>unsignalled\<close>: the number of callers of \<^verbatim>\<open>enqueue\<close> between the end of the
    locked block (line 44) and \<^verbatim>\<open>notify_one\<close> (line 45);
  \<^item> \<open>dtor\<close>: the position of the destructor;
  \<^item> \<open>aborted\<close>: \<^verbatim>\<open>std::terminate\<close> has been called, the process is ending.
  The last four fields are history variables: a step appends to them and no step
  looks at them to decide what it does. \<open>submitted\<close> lists the tasks in the
  order they entered the queue, \<open>early\<close> those among them that entered while
  \<^verbatim>\<open>stop\<close> was still false, \<open>dequeued\<close> the
  removals from the queue in order, each with the index of the worker that made it, and
  \<open>completed\<close> the tasks whose \<^verbatim>\<open>task()\<close> has returned, in the order of return.
\<close>

record ('t, 'e) pool =
  workers :: "'t worker list"
  tasks :: "'t list"
  stop :: bool
  shared :: 'e
  unsignalled :: nat
  dtor :: phase
  aborted :: bool
  submitted :: "'t list"
  early :: "'t list"
  dequeued :: "(nat \<times> 't) list"
  completed :: "'t list"

text \<open>
  A task is an opaque \<^verbatim>\<open>std::function<void()>\<close>. What running it does is given by
  a function \<open>body\<close>: \<open>body t e = Some e'\<close> when the call \<^verbatim>\<open>t()\<close> returns after
  changing the captured state from \<open>e\<close> to \<open>e'\<close>, and \<open>body t e = None\<close> when it
  throws. The change is taken as one atomic update, which is what the tasks of
  \<^verbatim>\<open>main\<close> perform (one addition on an atomic counter).
\<close>

type_synonym ('t, 'e) body = "'t \<Rightarrow> 'e \<Rightarrow> 'e option"

subsection \<open>Constructor\<close>

text \<open>
  Lines 17 to 37: \<^verbatim>\<open>stop(false)\<close>, then \<^verbatim>\<open>num_threads\<close> threads are started, each
  at the top of its loop. The queue starts empty.
\<close>

definition ThreadPool :: "nat \<Rightarrow> 'e \<Rightarrow> ('t, 'e) pool" where
  "ThreadPool num_threads e =
     \<lparr>workers = replicate num_threads Ready, tasks = [], stop = False, shared = e,
      unsignalled = 0, dtor = Live, aborted = False,
      submitted = [], early = [], dequeued = [], completed = []\<rparr>"

subsection \<open>The locked block of a worker\<close>

text \<open>
  Lines 22 to 32, on the flag and the queue. \<^verbatim>\<open>condition.wait(lock, pred)\<close> is
  \<^verbatim>\<open>while (!pred()) wait(lock)\<close>: when the predicate \<^verbatim>\<open>stop || !tasks.empty()\<close> is
  false the worker suspends (\<open>Suspend\<close>) and will evaluate the predicate again after
  it is woken. When it is true the worker goes on with the mutex held: it returns from
  the thread function when \<^verbatim>\<open>stop && tasks.empty()\<close> (\<open>Exit\<close>), otherwise it moves
  the front of the queue out and pops it (\<open>Claim\<close>).
\<close>

datatype 't claim = Suspend | Exit | Claim 't

definition dequeue_or_wait :: "bool \<Rightarrow> 't list \<Rightarrow> 't claim \<times> 't list" where
  "dequeue_or_wait stp q =
     (if \<not> (stp \<or> q \<noteq> []) then (Suspend, q)
      else if stp \<and> q = [] then (Exit, q)
      else (Claim (hd q), tl q))"

definition worker_lock :: "nat \<Rightarrow> ('t, 'e) pool \<Rightarrow> ('t, 'e) pool" where
  "worker_lock i s =
     (case dequeue_or_wait (stop s) (tasks s) of
        (Suspend, q) \<Rightarrow> s\<lparr>workers := (workers s)[i := Waiting]\<rparr>
      | (Exit, q) \<Rightarrow> s\<lparr>workers := (workers s)[i := Terminated]\<rparr>
      | (Claim t, q) \<Rightarrow>
          s\<lparr>workers := (workers s)[i := Executing t], tasks := q,
            dequeued := dequeued s @ [(i, t)]\<rparr>)"

subsection \<open>Running a task\<close>

text \<open>
  Line 33, \<^verbatim>\<open>task()\<close>, outside the lock. When the call returns the worker is back
  at the top of its loop. The lambda of the worker has no handler, so an exception
  thrown by the task leaves the thread function and \<^verbatim>\<open>std::terminate\<close> is called,
  which ends the process. The worker that ran the task is \<open>Crashed\<close> from then on.
  Nothing in the source stops the other threads at that instant: until the process is
  gone they go on taking steps, and a run simply has no further step once it is.
\<close>

definition run_task :: "('t, 'e) body \<Rightarrow> nat \<Rightarrow> 't \<Rightarrow> ('t, 'e) pool \<Rightarrow> ('t, 'e) pool" where
  "run_task body i t s =
     (case body t (shared s) of
        None \<Rightarrow> s\<lparr>workers := (workers s)[i := Crashed t], aborted := True\<rparr>
      | Some e' \<Rightarrow>
          s\<lparr>workers := (workers s)[i := Ready], shared := e',
            completed := completed s @ [t]\<rparr>)"

subsection \<open>enqueue\<close>

text \<open>
  Lines 41 to 44: the task is appended to the queue under the lock. No branch reads
  \<^verbatim>\<open>stop\<close>, and the function returns \<^verbatim>\<open>void\<close>.
\<close>

definition push :: "'t \<Rightarrow> ('t, 'e) pool \<Rightarrow> ('t, 'e) pool" where
  "push t s =
     s\<lparr>tasks := tasks s @ [t], unsignalled := Suc (unsignalled s),
       submitted := submitted s @ [t],
       early := (if stop s then early s else early s @ [t])\<rparr>"

text \<open>
  Line 45: \<^verbatim>\<open>condition.notify_one()\<close> unblocks one of the threads waiting on the
  condition variable, if there is any. Which one is up to the implementation: \<open>w\<close> is
  the index it picks. \<open>None\<close> says that \<open>w\<close> is not a pick the condition variable can
  make (a worker that does not wait while another one does), or that no caller stands
  before line 45.
\<close>

definition notify_one :: "nat \<Rightarrow> ('t, 'e) pool \<Rightarrow> ('t, 'e) pool option" where
  "notify_one w s =
     (if unsignalled s = 0 then None
      else if Waiting \<in> set (workers s) then
        (if w < length (workers s) \<and> workers s ! w = Waiting
         then Some (s\<lparr>workers := (workers s)[w := Ready], unsignalled := unsignalled s - 1\<rparr>)
         else None)
      else Some (s\<lparr>unsignalled := unsignalled s - 1\<rparr>))"

text \<open>A call of \<^verbatim>\<open>enqueue\<close> that no other thread interleaves with.\<close>

definition enqueue :: "'t \<Rightarrow> nat \<Rightarrow> ('t, 'e) pool \<Rightarrow> ('t, 'e) pool option" where
  "enqueue t w s = notify_one w (push t s)"

subsection \<open>Destructor\<close>

text \<open>Lines 49 to 52: the flag is set under the lock.\<close>

definition set_stop :: "('t, 'e) pool \<Rightarrow> ('t, 'e) pool" where
  "set_stop s = s\<lparr>stop := True, dtor := Flagged\<rparr>"

text \<open>Line 53: \<^verbatim>\<open>notify_all\<close> unblocks every thread that waits.\<close>

fun wake :: "'t worker \<Rightarrow> 't worker" where
  "wake Waiting = Ready"
| "wake w = w"

definition notify_all :: "('t, 'e) pool \<Rightarrow> ('t, 'e) pool" where
  "notify_all s = s\<lparr>workers := map wake (workers s), dtor := Joining 0\<rparr>"

text \<open>
  Lines 54 to 56: \<^verbatim>\<open>worker.join()\<close> blocks until that thread has returned from
  its function, so joining worker \<open>k\<close> is a step only once it is \<open>Terminated\<close>. The
  destructor returns after the last join.
\<close>

definition join :: "('t, 'e) pool \<Rightarrow> ('t, 'e) pool option" where
  "join s =
     (case dtor s of
        Joining k \<Rightarrow>
          (if k < length (workers s) \<and> workers s ! k = Terminated
           then Some (s\<lparr>dtor := Joining (Suc k)\<rparr>) else None)
      | _ \<Rightarrow> None)"

definition return_dtor :: "('t, 'e) pool \<Rightarrow> ('t, 'e) pool option" where
  "return_dtor s =
     (case dtor s of
        Joining k \<Rightarrow> (if k = length (workers s) then Some (s\<lparr>dtor := Destroyed\<rparr>) else None)
      | _ \<Rightarrow> None)"

subsection \<open>Runs\<close>

text \<open>
  One step of one thread. \<open>Wake i\<close> is a spurious wake-up of worker \<open>i\<close>, which
  \<^verbatim>\<open>condition_variable::wait\<close> allows at any time. \<open>fire\<close> is \<open>None\<close> when the
  thread cannot take the step in that state (it is blocked, or it stands elsewhere).
  Nothing is defined on a pool whose destructor has returned. \<^verbatim>\<open>enqueue\<close> is a
  step in every other state: it has no guard.
\<close>

datatype 't event =
    Push 't
  | Notify_one nat
  | Lock nat
  | Wake nat
  | Run nat
  | Stop_flag
  | Notify_all
  | Join
  | Return

definition fire :: "('t, 'e) body \<Rightarrow> 't event \<Rightarrow> ('t, 'e) pool \<Rightarrow> ('t, 'e) pool option" where
  "fire body ev s =
     (if dtor s = Destroyed then None
      else case ev of
        Push t \<Rightarrow> Some (push t s)
      | Notify_one w \<Rightarrow> notify_one w s
      | Lock i \<Rightarrow>
          (if i < length (workers s) \<and> workers s ! i = Ready
           then Some (worker_lock i s) else None)
      | Wake i \<Rightarrow>
          (if i < length (workers s) \<and> workers s ! i = Waiting
           then Some (s\<lparr>workers := (workers s)[i := Ready]\<rparr>) else None)
      | Run i \<Rightarrow>
          (if i < length (workers s) then
             (case workers s ! i of
                Executing t \<Rightarrow> Some (run_task body i t s)
              | _ \<Rightarrow> None)
           else None)
      | Stop_flag \<Rightarrow> (if dtor s = Live then Some (set_stop s) else None)
      | Notify_all \<Rightarrow> (if dtor s = Flagged then Some (notify_all s) else None)
      | Join \<Rightarrow> join s
      | Return \<Rightarrow> return_dtor s)"

fun exec :: "('t, 'e) body \<Rightarrow> 't event list \<Rightarrow> ('t, 'e) pool \<Rightarrow> ('t, 'e) pool option" where
  "exec body [] s = Some s"
| "exec body (ev # evs) s =
     (case fire body ev s of None \<Rightarrow> None | Some s' \<Rightarrow> exec body evs s')"

text \<open>
  The tasks the workers hold, in the order of the workers. A crashed worker still
  holds the task that threw: it was removed from the queue and has not completed.
\<close>

fun held :: "'t worker \<Rightarrow> 't list" where
  "held (Executing t) = [t]"
| "held (Crashed t) = [t]"
| "held w = []"

definition executing :: "'t worker list \<Rightarrow> 't list" where
  "executing ws = concat (map held ws)"

subsection \<open>The benchmark\<close>

definition NUM_TASKS :: nat where
  "NUM_TASKS = 100000"

definition NUM_WORKERS :: nat where
  "NUM_WORKERS = 8"

text \<open>
  Lines 67 to 73. The result is a \<^verbatim>\<open>uint64_t\<close>; \<open>n\<close> and the loop variable are
  \<^verbatim>\<open>size_t\<close> values, widened by the cast without change. The loop is the
  recursion on \<open>i\<close>.
\<close>

function heavy_loop :: "64 word \<Rightarrow> nat \<Rightarrow> 64 word \<Rightarrow> 64 word" where
  "heavy_loop n i result =
     (if i < 1000 then heavy_loop n (i + 1) (result + n * of_nat i) else result)"
  by pat_completeness auto
termination
  by (relation "measure (\<lambda>(n, i, result). 1000 - i)") auto

declare heavy_loop.simps [simp del]

definition heavy_computation :: "nat \<Rightarrow> 64 word" where
  "heavy_computation n = heavy_loop (of_nat n) 0 0"

text \<open>
  Lines 96 to 99: the task submitted for \<open>i\<close> captures \<open>i\<close> and the counter, and adds
  \<open>heavy_computation i\<close> to the counter atomically. It does not throw.
\<close>

definition bench_task :: "(nat, 64 word) body" where
  "bench_task i counter = Some (counter + heavy_computation i)"

text \<open>
  Lines 93 to 101 make \<^verbatim>\<open>main\<close> the only caller of the benchmark pool: it
  submits the tasks for \<open>i = 0, \<dots>, NUM_TASKS - 1\<close> in this order, and the
  destructor starts at the closing brace, after the loop. A run of the benchmark is
  therefore a run of a pool of \<open>NUM_WORKERS\<close> workers, started with the counter at
  0, in which \<open>submitted\<close> ends as \<open>[0..<NUM_TASKS]\<close> and every submission is
  \<open>early\<close>. The warm-up block before it has a pool and a counter of its own.

  One schedule among them, in which worker 0 runs each task as soon as it is
  submitted and the destructor then finds every worker idle:
\<close>

definition serve :: "nat \<Rightarrow> nat event list" where
  "serve i = [Push i, Notify_one 0, Lock 0, Run 0]"

definition teardown :: "nat event list" where
  "teardown = [Stop_flag, Notify_all] @ map Lock [0..<NUM_WORKERS] @
     replicate NUM_WORKERS Join @ [Return]"

subsection \<open>Sample tasks\<close>

text \<open>
  The tasks of \<^verbatim>\<open>main\<close> never throw. The examples on failing tasks use two
  tasks over any captured state: \<open>Returning\<close> returns and leaves the state as it
  is, \<open>Throwing\<close> throws.
\<close>

datatype sample = Returning | Throwing

fun sample_body :: "(sample, 'e) body" where
  "sample_body Returning e = Some e"
| "sample_body Throwing e = None"

section \<open>Steps and invariants\<close>

lemma fire_SomeE:
  assumes "fire body ev s = Some s'"
  obtains
    (Push) t where "ev = Push t" "s' = push t s"
  | (Notify_one) w where "ev = Notify_one w" "notify_one w s = Some s'"
  | (Lock) i where "ev = Lock i" "i < length (workers s)" "workers s ! i = Ready"
      "s' = worker_lock i s"
  | (Wake) i where "ev = Wake i" "i < length (workers s)" "workers s ! i = Waiting"
      "s' = s\<lparr>workers := (workers s)[i := Ready]\<rparr>"
  | (Run) i t where "ev = Run i" "i < length (workers s)" "workers s ! i = Executing t"
      "s' = run_task body i t s"
  | (Stop_flag) "ev = Stop_flag" "dtor s = Live" "s' = set_stop s"
  | (Notify_all) "ev = Notify_all" "dtor s = Flagged" "s' = notify_all s"
  | (Join) "ev = Join" "join s = Some s'"
  | (Return) "ev = Return" "return_dtor s = Some s'"
  using assms
  by (cases ev) (auto simp: fire_def split: if_splits worker.splits)

lemma fire_alive: "fire body ev s = Some s' \<Longrightarrow> dtor s \<noteq> Destroyed"
  by (auto simp: fire_def split: if_splits)

lemma exec_invariant:
  assumes step: "\<And>ev s s'. P s \<Longrightarrow> fire body ev s = Some s' \<Longrightarrow> P s'"
    and "P s" and "exec body evs s = Some s'"
  shows "P s'"
  using assms(2,3)
proof (induction evs arbitrary: s)
  case Nil
  then show ?case by simp
next
  case (Cons ev evs)
  then show ?case by (auto split: option.splits dest: step)
qed

lemma notify_one_SomeE:
  assumes "notify_one w s = Some s'"
  obtains (woken) "w < length (workers s)" "workers s ! w = Waiting"
      "s' = s\<lparr>workers := (workers s)[w := Ready], unsignalled := unsignalled s - 1\<rparr>"
  | (nobody) "Waiting \<notin> set (workers s)" "s' = s\<lparr>unsignalled := unsignalled s - 1\<rparr>"
  using assms by (auto simp: notify_one_def split: if_splits)

lemma join_SomeE:
  assumes "join s = Some s'"
  obtains k where "dtor s = Joining k" "k < length (workers s)" "workers s ! k = Terminated"
    "s' = s\<lparr>dtor := Joining (Suc k)\<rparr>"
  using assms by (auto simp: join_def split: phase.splits if_splits)

lemma return_dtor_SomeE:
  assumes "return_dtor s = Some s'"
  obtains "dtor s = Joining (length (workers s))" "s' = s\<lparr>dtor := Destroyed\<rparr>"
  using assms by (auto simp: return_dtor_def split: phase.splits if_splits)

lemma worker_lock_cases:
  obtains (Suspend) "\<not> stop s" "tasks s = []" "worker_lock i s = s\<lparr>workers := (workers s)[i := Waiting]\<rparr>"
  | (Exit) "stop s" "tasks s = []" "worker_lock i s = s\<lparr>workers := (workers s)[i := Terminated]\<rparr>"
  | (Claim) t q where "tasks s = t # q"
      "worker_lock i s = s\<lparr>workers := (workers s)[i := Executing t], tasks := q,
            dequeued := dequeued s @ [(i, t)]\<rparr>"
  by (cases "tasks s") (auto simp: worker_lock_def dequeue_or_wait_def)

lemma run_task_cases:
  obtains (throws) "body t (shared s) = None"
      "run_task body i t s = s\<lparr>workers := (workers s)[i := Crashed t], aborted := True\<rparr>"
  | (returns) e' where "body t (shared s) = Some e'"
      "run_task body i t s = s\<lparr>workers := (workers s)[i := Ready], shared := e',
            completed := completed s @ [t]\<rparr>"
  by (cases "body t (shared s)") (auto simp: run_task_def)

lemma executing_Cons: "executing (w # ws) = held w @ executing ws"
  by (simp add: executing_def)

lemma executing_Nil: "executing [] = []"
  by (simp add: executing_def)

lemma mset_executing_update:
  "i < length ws \<Longrightarrow>
   mset (executing (ws[i := w])) + mset (held (ws ! i)) = mset (executing ws) + mset (held w)"
proof (induction ws arbitrary: i)
  case Nil
  then show ?case by simp
next
  case (Cons a ws)
  show ?case
  proof (cases i)
    case 0
    then show ?thesis by (simp add: executing_Cons)
  next
    case (Suc j)
    with Cons.prems have "j < length ws" by simp
    from Cons.IH [OF this] Suc show ?thesis by (simp add: executing_Cons)
  qed
qed

lemma held_wake: "held (wake w) = held w"
  by (cases w) simp_all

lemma executing_map_wake: "executing (map wake ws) = executing ws"
  by (induction ws) (simp_all add: executing_Cons executing_Nil held_wake)

lemma queue_step:
  assumes "submitted s = map snd (dequeued s) @ tasks s" "fire body ev s = Some s'"
  shows "submitted s' = map snd (dequeued s') @ tasks s'"
  using assms(2)
proof (cases rule: fire_SomeE)
  case (Push t)
  then show ?thesis using assms(1) by (simp add: push_def)
next
  case (Notify_one w)
  then show ?thesis using assms(1) by (auto elim!: notify_one_SomeE)
next
  case (Lock i)
  show ?thesis using assms(1) Lock(4) by (cases rule: worker_lock_cases [of s i]) simp_all
next
  case (Wake i)
  then show ?thesis using assms(1) by simp
next
  case (Run i t)
  show ?thesis using assms(1) Run(4) by (cases rule: run_task_cases [of body t s i]) simp_all
next
  case Stop_flag
  then show ?thesis using assms(1) by (simp add: set_stop_def)
next
  case Notify_all
  then show ?thesis using assms(1) by (simp add: notify_all_def)
next
  case Join
  then show ?thesis using assms(1) by (auto elim!: join_SomeE)
next
  case Return
  then show ?thesis using assms(1) by (auto elim!: return_dtor_SomeE)
qed

lemma accounting_step:
  assumes "mset (map snd (dequeued s)) = mset (completed s) + mset (executing (workers s))"
    "fire body ev s = Some s'"
  shows "mset (map snd (dequeued s')) = mset (completed s') + mset (executing (workers s'))"
  using assms(2)
proof (cases rule: fire_SomeE)
  case (Push t)
  then show ?thesis using assms(1) by (simp add: push_def)
next
  case (Notify_one w)
  from Notify_one(2) show ?thesis
  proof (cases rule: notify_one_SomeE)
    case woken
    with mset_executing_update [of w "workers s" Ready] assms(1) show ?thesis by simp
  next
    case nobody
    then show ?thesis using assms(1) by simp
  qed
next
  case (Lock i)
  show ?thesis
  proof (cases rule: worker_lock_cases [of s i])
    case Suspend
    with mset_executing_update [of i "workers s" Waiting] Lock assms(1) show ?thesis by simp
  next
    case Exit
    with mset_executing_update [of i "workers s" Terminated] Lock assms(1) show ?thesis by simp
  next
    case (Claim t q)
    with mset_executing_update [of i "workers s" "Executing t"] Lock assms(1) show ?thesis by simp
  qed
next
  case (Wake i)
  with mset_executing_update [of i "workers s" Ready] assms(1) show ?thesis by simp
next
  case (Run i t)
  show ?thesis
  proof (cases rule: run_task_cases [of body t s i])
    case throws
    with mset_executing_update [of i "workers s" "Crashed t"] Run assms(1) show ?thesis by simp
  next
    case (returns e')
    with mset_executing_update [of i "workers s" Ready] Run assms(1) show ?thesis by simp
  qed
next
  case Stop_flag
  then show ?thesis using assms(1) by (simp add: set_stop_def)
next
  case Notify_all
  then show ?thesis using assms(1) by (simp add: notify_all_def executing_map_wake)
next
  case Join
  then show ?thesis using assms(1) by (auto elim!: join_SomeE)
next
  case Return
  then show ?thesis using assms(1) by (auto elim!: return_dtor_SomeE)
qed

lemma take_all_length: "take (length xs) ys = xs \<Longrightarrow> length xs \<le> length ys"
proof -
  assume "take (length xs) ys = xs"
  then have "length (take (length xs) ys) = length xs" by simp
  then show ?thesis by simp
qed

lemma length_step:
  assumes "fire body ev s = Some s'"
  shows "length (workers s') = length (workers s)"
  using assms
proof (cases rule: fire_SomeE)
  case (Lock i)
  show ?thesis using Lock(4) by (cases rule: worker_lock_cases [of s i]) simp_all
next
  case (Run i t)
  show ?thesis using Run(4) by (cases rule: run_task_cases [of body t s i]) simp_all
qed (auto simp: push_def set_stop_def notify_all_def
      elim!: notify_one_SomeE join_SomeE return_dtor_SomeE)

lemma flag_step:
  assumes "stop s" "fire body ev s = Some s'"
  shows "stop s'"
  using assms(2)
proof (cases rule: fire_SomeE)
  case (Lock i)
  show ?thesis using Lock(4) assms(1) by (cases rule: worker_lock_cases [of s i]) simp_all
next
  case (Run i t)
  show ?thesis using Run(4) assms(1) by (cases rule: run_task_cases [of body t s i]) simp_all
qed (use assms(1) in \<open>auto simp: push_def set_stop_def notify_all_def
      elim!: notify_one_SomeE join_SomeE return_dtor_SomeE\<close>)

lemma early_step:
  assumes "take (length (early s)) (submitted s) = early s \<and> (stop s \<or> early s = submitted s)"
    "fire body ev s = Some s'"
  shows "take (length (early s')) (submitted s') = early s' \<and> (stop s' \<or> early s' = submitted s')"
  using assms(2)
proof (cases rule: fire_SomeE)
  case (Push t)
  show ?thesis
  proof (cases "stop s")
    case True
    from assms(1) have "length (early s) \<le> length (submitted s)"
      by (simp add: take_all_length)
    with True Push assms(1) show ?thesis by (simp add: push_def)
  next
    case False
    with Push assms(1) show ?thesis by (simp add: push_def)
  qed
next
  case (Lock i)
  show ?thesis using Lock(4) assms(1) by (cases rule: worker_lock_cases [of s i]) simp_all
next
  case (Run i t)
  show ?thesis using Run(4) assms(1) by (cases rule: run_task_cases [of body t s i]) simp_all
qed (use assms(1) in \<open>auto simp: set_stop_def notify_all_def
      elim!: notify_one_SomeE join_SomeE return_dtor_SomeE\<close>)

lemma Terminated_update:
  "Terminated \<in> set (ws[i := w]) \<Longrightarrow> w \<noteq> Terminated \<Longrightarrow> Terminated \<in> set ws"
  using set_update_subset_insert [of ws i w] by auto

lemma wake_Terminated: "Terminated = wake w \<longleftrightarrow> w = Terminated"
  by (cases w) simp_all

lemma Terminated_wake: "Terminated \<in> wake ` set ws \<longleftrightarrow> Terminated \<in> set ws"
  by (auto simp: image_iff wake_Terminated)

text \<open>A worker has left only after the flag was set and the early tasks were all removed.\<close>

lemma exit_step:
  assumes q: "submitted s = map snd (dequeued s) @ tasks s"
    and e: "take (length (early s)) (submitted s) = early s"
    and inv: "Terminated \<in> set (workers s) \<longrightarrow> stop s \<and> length (early s) \<le> length (dequeued s)"
    and f: "fire body ev s = Some s'"
  shows "Terminated \<in> set (workers s') \<longrightarrow> stop s' \<and> length (early s') \<le> length (dequeued s')"
  using f
proof (cases rule: fire_SomeE)
  case (Push t)
  then show ?thesis using inv by (simp add: push_def)
next
  case (Notify_one w)
  then show ?thesis using inv by (auto elim!: notify_one_SomeE dest: Terminated_update)
next
  case (Lock i)
  show ?thesis
  proof (cases rule: worker_lock_cases [of s i])
    case Suspend
    then show ?thesis using inv Lock by (auto dest: Terminated_update)
  next
    case Exit
    from e have "length (early s) \<le> length (submitted s)"
      by (simp add: take_all_length)
    with q Exit Lock show ?thesis by simp
  next
    case (Claim t q)
    then show ?thesis using inv Lock by (auto dest: Terminated_update)
  qed
next
  case (Wake i)
  then show ?thesis using inv by (auto dest: Terminated_update)
next
  case (Run i t)
  show ?thesis using Run(4) inv
    by (cases rule: run_task_cases [of body t s i]) (auto dest: Terminated_update)
next
  case Stop_flag
  then show ?thesis using inv by (simp add: set_stop_def)
next
  case Notify_all
  then show ?thesis using inv by (simp add: notify_all_def Terminated_wake)
next
  case Join
  then show ?thesis using inv by (auto elim!: join_SomeE)
next
  case Return
  then show ?thesis using inv by (auto elim!: return_dtor_SomeE)
qed

lemma joined_step:
  assumes inv: "(\<forall>k. dtor s = Joining k \<longrightarrow> k \<le> length (workers s) \<and> (\<forall>j<k. workers s ! j = Terminated)) \<and>
      (dtor s = Destroyed \<longrightarrow> (\<forall>j<length (workers s). workers s ! j = Terminated))"
    and f: "fire body ev s = Some s'"
  shows "(\<forall>k. dtor s' = Joining k \<longrightarrow> k \<le> length (workers s') \<and> (\<forall>j<k. workers s' ! j = Terminated)) \<and>
      (dtor s' = Destroyed \<longrightarrow> (\<forall>j<length (workers s'). workers s' ! j = Terminated))"
  using f
proof (cases rule: fire_SomeE)
  case (Push t)
  then show ?thesis using inv by (simp add: push_def)
next
  case (Notify_one w)
  then show ?thesis using inv
    by (auto simp: nth_list_update elim!: notify_one_SomeE)
next
  case (Lock i)
  show ?thesis using Lock inv
    by (cases rule: worker_lock_cases [of s i]) (auto simp: nth_list_update)
next
  case (Wake i)
  then show ?thesis using inv by (auto simp: nth_list_update)
next
  case (Run i t)
  show ?thesis using Run inv
    by (cases rule: run_task_cases [of body t s i]) (auto simp: nth_list_update)
next
  case Stop_flag
  then show ?thesis using inv by (simp add: set_stop_def)
next
  case Notify_all
  then show ?thesis using inv by (simp add: notify_all_def)
next
  case Join
  then show ?thesis using inv by (auto simp: less_Suc_eq elim!: join_SomeE)
next
  case Return
  then show ?thesis using inv by (auto elim!: return_dtor_SomeE)
qed

lemma owner_step:
  assumes inv: "\<forall>d\<in>set (dequeued s). fst d < length (workers s)"
    and f: "fire body ev s = Some s'"
  shows "\<forall>d\<in>set (dequeued s'). fst d < length (workers s')"
proof -
  have same: "dequeued s' = dequeued s \<Longrightarrow> length (workers s') = length (workers s) \<Longrightarrow> ?thesis"
    using inv by simp
  from f show ?thesis
  proof (cases rule: fire_SomeE)
    case (Push t)
    then show ?thesis by (intro same) (simp_all add: push_def)
  next
    case (Notify_one w)
    then show ?thesis by (intro same) (auto elim!: notify_one_SomeE)
  next
    case (Lock i)
    show ?thesis
    proof (cases rule: worker_lock_cases [of s i])
      case Suspend
      with Lock show ?thesis by (intro same) simp_all
    next
      case Exit
      with Lock show ?thesis by (intro same) simp_all
    next
      case (Claim t q)
      with Lock inv show ?thesis by simp
    qed
  next
    case (Wake i)
    then show ?thesis by (intro same) simp_all
  next
    case (Run i t)
    show ?thesis using Run
      by (cases rule: run_task_cases [of body t s i]) (intro same; simp)+
  next
    case Stop_flag
    then show ?thesis by (intro same) (simp_all add: set_stop_def)
  next
    case Notify_all
    then show ?thesis by (intro same) (simp_all add: notify_all_def)
  next
    case Join
    then show ?thesis by (intro same) (auto elim!: join_SomeE)
  next
    case Return
    then show ?thesis by (intro same) (auto elim!: return_dtor_SomeE)
  qed
qed

lemma singleton_update:
  "length ws = Suc 0 \<Longrightarrow> i < Suc 0 \<Longrightarrow> ws = [ws ! 0] \<and> ws[i := w] = [w]"
  by (cases ws) auto

lemma executing_single: "executing [w] = held w"
  by (simp add: executing_def)

text \<open>With one worker the removals are the completed tasks followed by the one in hand.\<close>

lemma single_step:
  assumes inv: "length (workers s) = Suc 0 \<and>
      map snd (dequeued s) = completed s @ executing (workers s)"
    and f: "fire body ev s = Some s'"
  shows "length (workers s') = Suc 0 \<and>
      map snd (dequeued s') = completed s' @ executing (workers s')"
proof -
  from inv obtain w where ws: "workers s = [w]" by (cases "workers s") auto
  from f show ?thesis
  proof (cases rule: fire_SomeE)
    case (Push t)
    then show ?thesis using inv by (simp add: push_def)
  next
    case (Notify_one v)
    then show ?thesis using inv ws
      by (auto simp: executing_single elim!: notify_one_SomeE)
  next
    case (Lock i)
    show ?thesis using Lock inv ws
      by (cases rule: worker_lock_cases [of s i]) (auto simp: executing_single)
  next
    case (Wake i)
    then show ?thesis using inv ws by (auto simp: executing_single)
  next
    case (Run i t)
    show ?thesis using Run inv ws
      by (cases rule: run_task_cases [of body t s i]) (auto simp: executing_single)
  next
    case Stop_flag
    then show ?thesis using inv by (simp add: set_stop_def)
  next
    case Notify_all
    then show ?thesis using inv by (simp add: notify_all_def executing_map_wake)
  next
    case Join
    then show ?thesis using inv by (auto elim!: join_SomeE)
  next
    case Return
    then show ?thesis using inv by (auto elim!: return_dtor_SomeE)
  qed
qed

subsection \<open>Invariants of the runs of a new pool\<close>

lemma run_length:
  "exec body evs (ThreadPool n e) = Some s \<Longrightarrow> length (workers s) = n"
proof (erule exec_invariant [rotated 2])
  show "length (workers (ThreadPool n e)) = n" by (simp add: ThreadPool_def)
qed (simp add: length_step)

lemma run_queue:
  "exec body evs (ThreadPool n e) = Some s \<Longrightarrow> submitted s = map snd (dequeued s) @ tasks s"
proof (erule exec_invariant [rotated 2])
  show "submitted (ThreadPool n e) = map snd (dequeued (ThreadPool n e)) @ tasks (ThreadPool n e)"
    by (simp add: ThreadPool_def)
qed (rule queue_step)

lemma run_accounting:
  "exec body evs (ThreadPool n e) = Some s \<Longrightarrow>
   mset (map snd (dequeued s)) = mset (completed s) + mset (executing (workers s))"
proof (erule exec_invariant [rotated 2])
  have "executing (replicate n Ready) = []" by (induction n) (simp_all add: executing_def)
  then show "mset (map snd (dequeued (ThreadPool n e))) =
      mset (completed (ThreadPool n e)) + mset (executing (workers (ThreadPool n e)))"
    by (simp add: ThreadPool_def)
qed (rule accounting_step)


lemma run_owner:
  "exec body evs (ThreadPool n e) = Some s \<Longrightarrow> \<forall>d\<in>set (dequeued s). fst d < length (workers s)"
proof (erule exec_invariant [rotated 2])
  show "\<forall>d\<in>set (dequeued (ThreadPool n e)). fst d < length (workers (ThreadPool n e))"
    by (simp add: ThreadPool_def)
qed (rule owner_step)

lemma run_joined:
  "exec body evs (ThreadPool n e) = Some s \<Longrightarrow>
   (\<forall>k. dtor s = Joining k \<longrightarrow> k \<le> length (workers s) \<and> (\<forall>j<k. workers s ! j = Terminated)) \<and>
   (dtor s = Destroyed \<longrightarrow> (\<forall>j<length (workers s). workers s ! j = Terminated))"
proof (erule exec_invariant [rotated 2])
  show "(\<forall>k. dtor (ThreadPool n e) = Joining k \<longrightarrow> k \<le> length (workers (ThreadPool n e)) \<and>
        (\<forall>j<k. workers (ThreadPool n e) ! j = Terminated)) \<and>
      (dtor (ThreadPool n e) = Destroyed \<longrightarrow>
        (\<forall>j<length (workers (ThreadPool n e)). workers (ThreadPool n e) ! j = Terminated))"
    by (simp add: ThreadPool_def)
qed (rule joined_step)

lemma run_single:
  "exec body evs (ThreadPool (Suc 0) e) = Some s \<Longrightarrow>
   length (workers s) = Suc 0 \<and> map snd (dequeued s) = completed s @ executing (workers s)"
proof (erule exec_invariant [rotated 2])
  show "length (workers (ThreadPool (Suc 0) e)) = Suc 0 \<and>
      map snd (dequeued (ThreadPool (Suc 0) e)) =
      completed (ThreadPool (Suc 0) e) @ executing (workers (ThreadPool (Suc 0) e))"
    by (simp add: ThreadPool_def executing_def)
qed (rule single_step)

lemma run_exit:
  assumes "exec body evs (ThreadPool n e) = Some s"
  shows "Terminated \<in> set (workers s) \<longrightarrow> stop s \<and> length (early s) \<le> length (dequeued s)"
proof -
  let ?P = "\<lambda>s. submitted s = map snd (dequeued s) @ tasks s \<and>
      (take (length (early s)) (submitted s) = early s \<and> (stop s \<or> early s = submitted s)) \<and>
      (Terminated \<in> set (workers s) \<longrightarrow> stop s \<and> length (early s) \<le> length (dequeued s))"
  have "?P s"
  proof (rule exec_invariant [where P = ?P, OF _ _ assms])
    show "?P (ThreadPool n e)" by (simp add: ThreadPool_def)
  next
    fix ev s s'
    assume P: "?P s" and f: "fire body ev s = Some s'"
    from P have q: "submitted s = map snd (dequeued s) @ tasks s"
      and e: "take (length (early s)) (submitted s) = early s \<and> (stop s \<or> early s = submitted s)"
      and x: "Terminated \<in> set (workers s) \<longrightarrow> stop s \<and> length (early s) \<le> length (dequeued s)"
      by blast+
    from e have e': "take (length (early s)) (submitted s) = early s" by blast
    show "?P s'"
      using queue_step [OF q f] early_step [OF e f] exit_step [OF q e' x f] by blast
  qed
  then show ?thesis by blast
qed

subsection \<open>The pool after the destructor has returned\<close>

lemma all_Terminated:
  "length ws = n \<Longrightarrow> \<forall>j<n. ws ! j = Terminated \<Longrightarrow> ws = replicate n Terminated"
  by (simp add: list_eq_iff_nth_eq)

lemma executing_Terminated: "executing (replicate n Terminated) = []"
  by (induction n) (simp_all add: executing_def)


lemma run_returned:
  assumes run: "exec body evs (ThreadPool n e) = Some s"
    and n: "0 < n"
    and returned: "dtor s = Destroyed"
  shows "workers s = replicate n Terminated \<and> length (early s) \<le> length (dequeued s) \<and>
    mset (map snd (dequeued s)) = mset (completed s)"
proof -
  have len: "length (workers s) = n" by (rule run_length [OF run])
  from run_joined [OF run] returned len have "\<forall>j<n. workers s ! j = Terminated" by simp
  with len have ws: "workers s = replicate n Terminated" by (rule all_Terminated)
  with n have "Terminated \<in> set (workers s)" by simp
  with run_exit [OF run] have le: "length (early s) \<le> length (dequeued s)" by simp
  from run_accounting [OF run] ws
  have "mset (map snd (dequeued s)) = mset (completed s)"
    by (simp add: executing_Terminated)
  with ws le show ?thesis by blast
qed

text \<open>The definitions a concrete run is evaluated with.\<close>

lemmas run_simps = fire_def push_def notify_one_def worker_lock_def dequeue_or_wait_def
  run_task_def set_stop_def notify_all_def join_def return_dtor_def ThreadPool_def

subsection \<open>A pool without workers\<close>

lemma idle_step:
  assumes inv: "workers s = [] \<and> \<not> aborted s \<and> completed s = [] \<and> dequeued s = [] \<and> shared s = e"
    and f: "fire body ev s = Some s'"
  shows "workers s' = [] \<and> \<not> aborted s' \<and> completed s' = [] \<and> dequeued s' = [] \<and> shared s' = e"
  using f
proof (cases rule: fire_SomeE)
qed (use inv in \<open>auto simp: push_def set_stop_def notify_all_def
      elim!: notify_one_SomeE join_SomeE return_dtor_SomeE\<close>)

subsection \<open>enqueue as two steps\<close>

lemma enqueue_as_events:
  "dtor s \<noteq> Destroyed \<Longrightarrow> exec body [Push t, Notify_one w] s = enqueue t w s"
  by (simp add: fire_def enqueue_def push_def split: option.splits)

subsection \<open>The benchmark\<close>

lemma heavy_loop_sum:
  "i \<le> 1000 \<Longrightarrow> heavy_loop n i r = r + n * of_nat (\<Sum>{i..<1000})"
proof (induction n i r rule: heavy_loop.induct)
  case (1 n i r)
  show ?case
  proof (cases "i < 1000")
    case True
    then have "heavy_loop n i r = heavy_loop n (i + 1) (r + n * of_nat i)"
      by (subst heavy_loop.simps) simp
    also from True have "\<dots> = (r + n * of_nat i) + n * of_nat (\<Sum>{i + 1..<1000})"
      by (intro "1.IH") simp_all
    also from True have "\<Sum>{i..<1000} = i + \<Sum>{i + 1..<1000}"
      by (simp add: sum.atLeast_Suc_lessThan)
    then have "(r + n * of_nat i) + n * of_nat (\<Sum>{i + 1..<1000}) = r + n * of_nat (\<Sum>{i..<1000})"
      by (simp add: algebra_simps)
    finally show ?thesis .
  next
    case False
    with "1.prems" have "i = 1000" by simp
    then show ?thesis by (subst heavy_loop.simps) simp
  qed
qed

lemma heavy_computation_eq: "heavy_computation n = of_nat n * 499500"
proof -
  have "\<Sum>{0..<1000::nat} = 499500" by (simp add: Sum_Ico_nat)
  then show ?thesis by (simp add: heavy_computation_def heavy_loop_sum)
qed

lemma counter_step:
  assumes inv: "shared s = sum_list (map heavy_computation (completed s))"
    and f: "fire bench_task ev s = Some s'"
  shows "shared s' = sum_list (map heavy_computation (completed s'))"
  using f
proof (cases rule: fire_SomeE)
  case (Lock i)
  show ?thesis using Lock inv by (cases rule: worker_lock_cases [of s i]) simp_all
next
  case (Run i t)
  then show ?thesis using inv by (simp add: run_task_def bench_task_def)
qed (use inv in \<open>auto simp: push_def set_stop_def notify_all_def
      elim!: notify_one_SomeE join_SomeE return_dtor_SomeE\<close>)

lemma run_counter:
  "exec bench_task evs (ThreadPool n 0) = Some s \<Longrightarrow>
   shared s = sum_list (map heavy_computation (completed s))"
proof (erule exec_invariant [rotated 2])
  show "shared (ThreadPool n 0) = sum_list (map heavy_computation (completed (ThreadPool n 0)))"
    by (simp add: ThreadPool_def)
qed (rule counter_step)

lemma sum_list_mset_cong:
  fixes f :: "'a \<Rightarrow> 'b::comm_monoid_add"
  assumes "mset xs = mset ys"
  shows "sum_list (map f xs) = sum_list (map f ys)"
proof -
  have "sum_list (map f xs) = sum_mset (image_mset f (mset xs))"
    by (metis mset_map sum_mset_sum_list)
  also have "\<dots> = sum_mset (image_mset f (mset ys))" by (simp add: assms)
  also have "\<dots> = sum_list (map f ys)" by (metis mset_map sum_mset_sum_list)
  finally show ?thesis .
qed

lemma total_value: "(\<Sum>i<NUM_TASKS. heavy_computation i) = 2497475025000000"
proof -
  have "(\<Sum>i<NUM_TASKS. heavy_computation i) = (\<Sum>i<NUM_TASKS. of_nat (i * 499500))"
    by (simp add: heavy_computation_eq)
  also have "\<dots> = of_nat (\<Sum>i<NUM_TASKS. i * 499500)" by simp
  also have "(\<Sum>i<NUM_TASKS. i * 499500) = (\<Sum>{0..<NUM_TASKS}) * 499500"
    by (simp add: sum_distrib_right lessThan_atLeast0)
  also have "\<Sum>{0..<NUM_TASKS} = 4999950000"
    by (simp add: Sum_Ico_nat NUM_TASKS_def)
  finally show ?thesis by simp
qed

lemma exec_append:
  "exec body (xs @ ys) s = (case exec body xs s of None \<Rightarrow> None | Some s' \<Rightarrow> exec body ys s')"
  by (induction xs arbitrary: s) (simp_all split: option.splits)

lemma serve_all:
  "exec bench_task (concat (map serve [0..<k])) (ThreadPool NUM_WORKERS 0) =
   Some ((ThreadPool NUM_WORKERS 0)
     \<lparr>shared := sum_list (map heavy_computation [0..<k]), submitted := [0..<k],
      early := [0..<k], dequeued := map (Pair 0) [0..<k], completed := [0..<k]\<rparr>)"
proof (induction k)
  case 0
  show ?case by (simp add: ThreadPool_def)
next
  case (Suc k)
  show ?case
    by (simp add: exec_append Suc.IH)
      (simp add: serve_def run_simps bench_task_def NUM_WORKERS_def eval_nat_numeral)
qed

lemma teardown_idle:
  "exec bench_task teardown
     ((ThreadPool NUM_WORKERS 0)\<lparr>shared := c, submitted := xs, early := xs,
        dequeued := ds, completed := xs\<rparr>) =
   Some ((ThreadPool NUM_WORKERS 0)\<lparr>workers := replicate NUM_WORKERS Terminated, stop := True,
        shared := c, dtor := Destroyed, submitted := xs, early := xs,
        dequeued := ds, completed := xs\<rparr>)"
  by (simp add: teardown_def NUM_WORKERS_def eval_nat_numeral upt_rec)
    (simp add: run_simps)

subsection \<open>A crashed worker, and a pool whose workers have all left\<close>

lemma crashed_step:
  assumes inv: "i < length (workers s) \<and> workers s ! i = Crashed t \<and> aborted s"
    and f: "fire body ev s = Some s'"
  shows "i < length (workers s') \<and> workers s' ! i = Crashed t \<and> aborted s'"
  using f
proof (cases rule: fire_SomeE)
  case (Push u)
  then show ?thesis using inv by (simp add: push_def)
next
  case (Notify_one w)
  then show ?thesis using inv by (auto simp: nth_list_update elim!: notify_one_SomeE)
next
  case (Lock j)
  show ?thesis using Lock inv
    by (cases rule: worker_lock_cases [of s j]) (auto simp: nth_list_update)
next
  case (Wake j)
  then show ?thesis using inv by (auto simp: nth_list_update)
next
  case (Run j u)
  show ?thesis using Run inv
    by (cases rule: run_task_cases [of body u s j]) (auto simp: nth_list_update)
next
  case Stop_flag
  then show ?thesis using inv by (simp add: set_stop_def)
next
  case Notify_all
  then show ?thesis using inv by (simp add: notify_all_def)
next
  case Join
  then show ?thesis using inv by (auto elim!: join_SomeE)
next
  case Return
  then show ?thesis using inv by (auto elim!: return_dtor_SomeE)
qed

lemma crashed_forever:
  assumes "i < length (workers s)" "workers s ! i = Crashed t" "aborted s"
    and "exec body evs s = Some s'"
  shows "i < length (workers s') \<and> workers s' ! i = Crashed t \<and> aborted s'"
  using assms(4)
proof (rule exec_invariant [rotated 2])
  show "i < length (workers s) \<and> workers s ! i = Crashed t \<and> aborted s"
    using assms(1-3) by simp
qed (rule crashed_step)

lemma deserted_step:
  assumes inv: "set (workers s) \<subseteq> {Terminated} \<and> dequeued s = ds \<and> completed s = cs \<and>
      take (length q) (tasks s) = q"
    and f: "fire body ev s = Some s'"
  shows "set (workers s') \<subseteq> {Terminated} \<and> dequeued s' = ds \<and> completed s' = cs \<and>
      take (length q) (tasks s') = q"
proof -
  have none: "workers s ! j = Terminated" if "j < length (workers s)" for j
  proof -
    from that have "workers s ! j \<in> set (workers s)" by (rule nth_mem)
    with inv show ?thesis by blast
  qed
  from inv have len: "length q \<le> length (tasks s)"
    by (simp add: take_all_length)
  from f show ?thesis
  proof (cases rule: fire_SomeE)
    case (Push u)
    then show ?thesis using inv len by (simp add: push_def)
  next
    case (Notify_one w)
    then show ?thesis using inv none [of w] by (auto elim!: notify_one_SomeE)
  next
    case (Lock j)
    then show ?thesis using none [of j] by simp
  next
    case (Wake j)
    then show ?thesis using none [of j] by simp
  next
    case (Run j u)
    then show ?thesis using none [of j] by simp
  next
    case Stop_flag
    then show ?thesis using inv by (simp add: set_stop_def)
  next
    case Notify_all
    have "wake w = Terminated" if "w = Terminated" for w :: "'a worker"
      using that by simp
    then show ?thesis using Notify_all inv by (auto simp: notify_all_def)
  next
    case Join
    then show ?thesis using inv by (auto elim!: join_SomeE)
  next
    case Return
    then show ?thesis using inv by (auto elim!: return_dtor_SomeE)
  qed
qed

lemma deserted_forever:
  assumes "set (workers s) \<subseteq> {Terminated}" "take (length q) (tasks s) = q"
    and "exec body evs s = Some s'"
  shows "dequeued s' = dequeued s \<and> completed s' = completed s \<and> take (length q) (tasks s') = q"
proof -
  have "set (workers s') \<subseteq> {Terminated} \<and> dequeued s' = dequeued s \<and>
      completed s' = completed s \<and> take (length q) (tasks s') = q"
    using assms(3)
  proof (rule exec_invariant [rotated 2])
    show "set (workers s) \<subseteq> {Terminated} \<and> dequeued s = dequeued s \<and>
        completed s = completed s \<and> take (length q) (tasks s) = q"
      using assms(1,2) by simp
  qed (rule deserted_step)
  then show ?thesis by blast
qed

section \<open>Properties\<close>

subsection \<open>Shutdown drains the queue\<close>



subsection \<open>Each task is taken once\<close>

text \<open>
  C2. Exactly-once claim transfer. In every state a run of a new pool reaches, the
  list of submissions is the list of removals followed by the queue: a submitted task
  is either still queued or was removed by one step of one worker (an index below the
  worker count), never both and never twice. Every removed task is either completed
  or in the hands of a worker, so no task runs more often than it was submitted.
\<close>

theorem exactly_once:
  assumes run: "exec body evs (ThreadPool n e) = Some s"
  shows "submitted s = map snd (dequeued s) @ tasks s \<and>
    (\<forall>d\<in>set (dequeued s). fst d < n) \<and>
    mset (map snd (dequeued s)) = mset (completed s) + mset (executing (workers s)) \<and>
    mset (completed s) \<subseteq># mset (submitted s)"
proof -
  have q: "submitted s = map snd (dequeued s) @ tasks s" by (rule run_queue [OF run])
  have acc: "mset (map snd (dequeued s)) = mset (completed s) + mset (executing (workers s))"
    by (rule run_accounting [OF run])
  from run_owner [OF run] run_length [OF run]
  have own: "\<forall>d\<in>set (dequeued s). fst d < n" by simp
  have "mset (submitted s) = mset (completed s) + mset (executing (workers s)) + mset (tasks s)"
    using q acc by simp
  then have "mset (completed s) \<subseteq># mset (submitted s)" by simp
  with q acc own show ?thesis by blast
qed

theorem exactly_once_witness:
  "\<exists>s. exec bench_task
     [Lock 1, Push 4, Push 9, Notify_one 1, Lock 0, Lock 1, Push 6, Run 1] (ThreadPool 2 0) = Some s \<and>
     submitted s = [4, 9, 6] \<and> dequeued s = [(0, 4), (1, 9)] \<and> tasks s = [6] \<and>
     completed s = [9] \<and> workers s = [Executing 4, Ready] \<and>
     mset (completed s) \<subseteq># mset (submitted s)"
proof -
  let ?evs = "[Lock 1, Push 4, Push 9, Notify_one 1, Lock 0, Lock 1, Push 6, Run 1]"
  obtain s where run: "exec bench_task ?evs (ThreadPool 2 0) = Some s"
    and s: "submitted s = [4, 9, 6]" "dequeued s = [(0, 4), (1, 9)]" "tasks s = [6]"
      "completed s = [9]" "workers s = [Executing 4, Ready]"
    by (simp add: run_simps bench_task_def numeral_2_eq_2)
  from exactly_once [OF run] have "mset (completed s) \<subseteq># mset (submitted s)" by blast
  with run s show ?thesis by blast
qed

subsection \<open>Order\<close>

text \<open>
  C3. FIFO ordering. In every state a run of a new pool reaches, the tasks removed so
  far are, in the order of their removal, the first submissions in the order of
  submission; the locked block of a worker, run on a queue that is not empty, removes
  its front. With one worker the completed tasks are an initial part of the
  submissions in the order of submission, followed by the task in hand and the queue.
\<close>

theorem fifo_order:
  assumes run: "exec body evs (ThreadPool n e) = Some s"
  shows "map snd (dequeued s) = take (length (dequeued s)) (submitted s) \<and>
    (tasks s \<noteq> [] \<longrightarrow> tasks (worker_lock i s) = tl (tasks s) \<and>
       dequeued (worker_lock i s) = dequeued s @ [(i, hd (tasks s))]) \<and>
    (n = 1 \<longrightarrow> completed s = take (length (completed s)) (submitted s) \<and>
       submitted s = completed s @ executing (workers s) @ tasks s)"
proof -
  have q: "submitted s = map snd (dequeued s) @ tasks s" by (rule run_queue [OF run])
  then have first: "map snd (dequeued s) = take (length (dequeued s)) (submitted s)" by simp
  have front: "tasks (worker_lock i s) = tl (tasks s) \<and>
      dequeued (worker_lock i s) = dequeued s @ [(i, hd (tasks s))]" if "tasks s \<noteq> []"
    using that by (cases rule: worker_lock_cases [of s i]) simp_all
  have single: "completed s = take (length (completed s)) (submitted s) \<and>
      submitted s = completed s @ executing (workers s) @ tasks s" if "n = 1"
  proof -
    from run that have "exec body evs (ThreadPool (Suc 0) e) = Some s" by simp
    from run_single [OF this] q
    have "submitted s = completed s @ executing (workers s) @ tasks s" by simp
    then show ?thesis by (metis append_eq_conv_conj)
  qed
  from first front single show ?thesis by blast
qed

theorem fifo_order_witness:
  "\<exists>s. exec bench_task
     [Push 4, Push 9, Notify_one 0, Push 6, Lock 0, Run 0, Lock 0] (ThreadPool 1 0) = Some s \<and>
     submitted s = [4, 9, 6] \<and> map snd (dequeued s) = [4, 9] \<and> completed s = [4] \<and>
     executing (workers s) = [9] \<and> tasks s = [6] \<and>
     tasks (worker_lock 0 s) = [] \<and> dequeued (worker_lock 0 s) = [(0, 4), (0, 9), (0, 6)] \<and>
     completed s = take (length (completed s)) (submitted s)"
proof -
  let ?evs = "[Push 4, Push 9, Notify_one 0, Push 6, Lock 0, Run 0, Lock 0]"
  obtain s where run: "exec bench_task ?evs (ThreadPool 1 0) = Some s"
    and s: "submitted s = [4, 9, 6]" "dequeued s = [(0, 4), (0, 9)]" "completed s = [4]"
      "workers s = [Executing 9]" "tasks s = [6]"
    by (simp add: run_simps bench_task_def)
  from fifo_order [OF run, of 0] s
  have "tasks (worker_lock 0 s) = [] \<and> dequeued (worker_lock 0 s) = [(0, 4), (0, 9), (0, 6)] \<and>
      completed s = take (length (completed s)) (submitted s)"
    by simp
  with run s show ?thesis by (simp add: executing_def)
qed

subsection \<open>The locked block\<close>

text \<open>
  C4. Worker termination condition. A worker that is ready to enter its locked block
  can enter it, and it comes out terminated exactly when the queue is empty and the
  flag is set: that is when the dequeue-or-wait of lines 22 to 32 yields the sentinel.
  When the queue is not empty the block removes the front task from the queue of the
  pool and leaves it in the hands of the worker, whatever the flag says. With the
  queue empty and the flag not set the worker is suspended. The flag and the other
  workers are as before.
\<close>

theorem worker_termination_condition:
  assumes "i < length (workers s)" "workers s ! i = Ready" "dtor s \<noteq> Destroyed"
  shows "fire body (Lock i) s = Some (worker_lock i s) \<and>
    (workers (worker_lock i s) ! i = Terminated \<longleftrightarrow> tasks s = [] \<and> stop s) \<and>
    (fst (dequeue_or_wait (stop s) (tasks s)) = Exit \<longleftrightarrow> tasks s = [] \<and> stop s) \<and>
    (tasks s \<noteq> [] \<longrightarrow>
       workers (worker_lock i s) ! i = Executing (hd (tasks s)) \<and>
       tasks (worker_lock i s) = tl (tasks s) \<and>
       dequeue_or_wait (stop s) (tasks s) = (Claim (hd (tasks s)), tl (tasks s))) \<and>
    (tasks s = [] \<longrightarrow> tasks (worker_lock i s) = [] \<and>
       (\<not> stop s \<longrightarrow> workers (worker_lock i s) ! i = Waiting)) \<and>
    stop (worker_lock i s) = stop s \<and>
    (j \<noteq> i \<longrightarrow> workers (worker_lock i s) ! j = workers s ! j)"
proof -
  have step: "fire body (Lock i) s = Some (worker_lock i s)"
    using assms by (simp add: fire_def)
  show ?thesis
  proof (cases rule: worker_lock_cases [of s i])
    case Suspend
    with assms step show ?thesis by (simp add: dequeue_or_wait_def)
  next
    case Exit
    with assms step show ?thesis by (simp add: dequeue_or_wait_def)
  next
    case (Claim t q)
    with assms step show ?thesis by (simp add: dequeue_or_wait_def)
  qed
qed

theorem worker_termination_condition_witness:
  "(\<exists>s. exec bench_task [Stop_flag] (ThreadPool 2 0) = Some s \<and>
      workers s = [Ready, Ready] \<and> tasks s = [] \<and> stop s \<and>
      fire bench_task (Lock 1) s = Some (worker_lock 1 s) \<and>
      workers (worker_lock 1 s) = [Ready, Terminated]) \<and>
   (\<exists>s. exec bench_task [Push 3, Push 5] (ThreadPool 2 0) = Some s \<and>
      workers s = [Ready, Ready] \<and> tasks s = [3, 5] \<and> \<not> stop s \<and>
      fire bench_task (Lock 1) s = Some (worker_lock 1 s) \<and>
      workers (worker_lock 1 s) = [Ready, Executing 3] \<and> tasks (worker_lock 1 s) = [5]) \<and>
   (\<exists>s. exec bench_task [Push 3, Push 5, Stop_flag] (ThreadPool 2 0) = Some s \<and>
      workers s = [Ready, Ready] \<and> tasks s = [3, 5] \<and> stop s \<and>
      fire bench_task (Lock 1) s = Some (worker_lock 1 s) \<and>
      workers (worker_lock 1 s) = [Ready, Executing 3] \<and> tasks (worker_lock 1 s) = [5]) \<and>
   (\<exists>s. exec bench_task [] (ThreadPool 2 0) = Some s \<and>
      workers s = [Ready, Ready] \<and> tasks s = [] \<and> \<not> stop s \<and>
      fire bench_task (Lock 1) s = Some (worker_lock 1 s) \<and>
      workers (worker_lock 1 s) = [Ready, Waiting])"
proof -
  have two: "ws = [ws ! 0, ws ! 1]" if "length ws = 2" for ws :: "nat worker list"
    using that by (cases ws; cases "tl ws") auto
  have shape: "workers (worker_lock 1 s) = [workers (worker_lock 1 s) ! 0, workers (worker_lock 1 s) ! 1]"
    if "workers s = [Ready, Ready]" for s :: "(nat, 64 word) pool"
  proof (rule two)
    show "length (workers (worker_lock 1 s)) = 2"
      using that by (cases rule: worker_lock_cases [of s 1]) simp_all
  qed
  obtain a where a: "exec bench_task [Stop_flag] (ThreadPool 2 0) = Some a"
    "workers a = [Ready, Ready]" "tasks a = []" "stop a" "dtor a = Flagged"
    by (simp add: run_simps numeral_2_eq_2)
  obtain b where b: "exec bench_task [Push 3, Push 5] (ThreadPool 2 0) = Some b"
    "workers b = [Ready, Ready]" "tasks b = [3, 5]" "\<not> stop b" "dtor b = Live"
    by (simp add: run_simps numeral_2_eq_2)
  obtain c where c: "exec bench_task [Push 3, Push 5, Stop_flag] (ThreadPool 2 0) = Some c"
    "workers c = [Ready, Ready]" "tasks c = [3, 5]" "stop c" "dtor c = Flagged"
    by (simp add: run_simps numeral_2_eq_2)
  obtain d where d: "exec bench_task [] (ThreadPool 2 0) = Some d"
    "workers d = [Ready, Ready]" "tasks d = []" "\<not> stop d" "dtor d = Live"
    by (simp add: run_simps numeral_2_eq_2)
  from worker_termination_condition [of 1 a bench_task 0] a shape [of a]
  have "fire bench_task (Lock 1) a = Some (worker_lock 1 a) \<and>
      workers (worker_lock 1 a) = [Ready, Terminated]"
    by simp
  moreover from worker_termination_condition [of 1 b bench_task 0] b shape [of b]
  have "fire bench_task (Lock 1) b = Some (worker_lock 1 b) \<and>
      workers (worker_lock 1 b) = [Ready, Executing 3] \<and> tasks (worker_lock 1 b) = [5]"
    by simp
  moreover from worker_termination_condition [of 1 c bench_task 0] c shape [of c]
  have "fire bench_task (Lock 1) c = Some (worker_lock 1 c) \<and>
      workers (worker_lock 1 c) = [Ready, Executing 3] \<and> tasks (worker_lock 1 c) = [5]"
    by simp
  moreover from worker_termination_condition [of 1 d bench_task 0] d shape [of d]
  have "fire bench_task (Lock 1) d = Some (worker_lock 1 d) \<and>
      workers (worker_lock 1 d) = [Ready, Waiting]"
    by simp
  ultimately show ?thesis using a b c d by blast
qed

subsection \<open>enqueue\<close>

text \<open>
  C5. Enqueue postcondition. For every task and every state of the pool a call of
  \<^verbatim>\<open>enqueue\<close> can complete, and when it has, the queue is the queue before with
  the task appended at the back: its length has grown by exactly one and the tasks
  queued before are unchanged and in order. When a consumer was blocked in the wait,
  one that was blocked has been woken.
\<close>

theorem enqueue_postcondition:
  "(\<exists>w s'. enqueue t w s = Some s') \<and>
   (enqueue t w s = Some s' \<longrightarrow>
      tasks s' = tasks s @ [t] \<and>
      length (tasks s') = length (tasks s) + 1 \<and>
      take (length (tasks s)) (tasks s') = tasks s \<and>
      (Waiting \<in> set (workers s) \<longrightarrow>
         (\<exists>i<length (workers s). workers s ! i = Waiting \<and> workers s' ! i = Ready)))"
proof -
  have can: "\<exists>w s'. enqueue t w s = Some s'"
  proof (cases "Waiting \<in> set (workers s)")
    case True
    then obtain i where "i < length (workers s)" "workers s ! i = Waiting"
      by (auto simp: in_set_conv_nth)
    then have "enqueue t i s \<noteq> None" by (simp add: enqueue_def notify_one_def push_def)
    then show ?thesis by blast
  next
    case False
    then have "enqueue t 0 s \<noteq> None" by (simp add: enqueue_def notify_one_def push_def)
    then show ?thesis by blast
  qed
  have post: "tasks s' = tasks s @ [t] \<and>
      length (tasks s') = length (tasks s) + 1 \<and>
      take (length (tasks s)) (tasks s') = tasks s \<and>
      (Waiting \<in> set (workers s) \<longrightarrow>
         (\<exists>i<length (workers s). workers s ! i = Waiting \<and> workers s' ! i = Ready))"
    if "enqueue t w s = Some s'"
  proof -
    from that have n: "notify_one w (push t s) = Some s'" by (simp add: enqueue_def)
    from n show ?thesis
    proof (cases rule: notify_one_SomeE)
      case woken
      then have "w < length (workers s) \<and> workers s ! w = Waiting \<and> workers s' ! w = Ready"
        by (simp add: push_def)
      with woken show ?thesis by (auto simp: push_def)
    next
      case nobody
      then show ?thesis by (simp add: push_def)
    qed
  qed
  from can post show ?thesis by blast
qed

theorem enqueue_postcondition_witness:
  "\<exists>s s'. exec bench_task [Lock 1, Push 4, Lock 0] (ThreadPool 2 0) = Some s \<and>
     tasks s = [] \<and> workers s = [Executing 4, Waiting] \<and>
     enqueue 9 1 s = Some s' \<and> tasks s' = [9] \<and> length (tasks s') = 1 \<and>
     workers s' = [Executing 4, Ready]"
proof -
  obtain s where run: "exec bench_task [Lock 1, Push 4, Lock 0] (ThreadPool 2 0) = Some s"
    and s: "tasks s = []" "workers s = [Executing 4, Waiting]" "unsignalled s = 1"
    by (simp add: run_simps bench_task_def numeral_2_eq_2)
  from s have "\<exists>s'. enqueue 9 1 s = Some s' \<and> workers s' = [Executing 4, Ready]"
    by (simp add: enqueue_def notify_one_def push_def)
  then obtain s' where e: "enqueue 9 1 s = Some s'" and s': "workers s' = [Executing 4, Ready]"
    by blast
  from enqueue_postcondition [of 9 s 1 s'] e s
  have "tasks s' = [9] \<and> length (tasks s') = 1" by simp
  with run s e s' show ?thesis by blast
qed

text \<open>
  C6, as the code has it. \<^verbatim>\<open>enqueue\<close> does not look at the flag and has no way to
  signal an error. A submission made after the destructor has set the flag, and before
  the destructor returns, is accepted like any other: the step is taken, the task is
  appended to the queue and the flag stays set. What becomes of the task depends on
  the workers. When every worker has already terminated, no later step of any thread
  removes or completes anything: the task stays in the queue for good. When the queue
  was empty and a worker stands at the top of its loop, or is blocked in the wait, that
  worker can take the task and run it to completion.
\<close>

theorem submit_after_shutdown_accepted:
  assumes "stop s" "dtor s \<noteq> Destroyed"
  shows "fire body (Push t) s = Some (push t s) \<and> tasks (push t s) = tasks s @ [t] \<and>
    submitted (push t s) = submitted s @ [t] \<and> stop (push t s) \<and>
    (set (workers s) \<subseteq> {Terminated} \<longrightarrow> exec body evs (push t s) = Some s' \<longrightarrow>
       dequeued s' = dequeued s \<and> completed s' = completed s \<and>
       take (Suc (length (tasks s))) (tasks s') = tasks s @ [t]) \<and>
    (i < length (workers s) \<longrightarrow> tasks s = [] \<longrightarrow> body t (shared s) = Some e' \<longrightarrow>
       (workers s ! i = Ready \<longrightarrow>
          map_option completed (exec body [Push t, Lock i, Run i] s) = Some (completed s @ [t]) \<and>
          map_option tasks (exec body [Push t, Lock i, Run i] s) = Some []) \<and>
       (workers s ! i = Waiting \<longrightarrow>
          map_option completed (exec body [Push t, Notify_one i, Lock i, Run i] s) =
            Some (completed s @ [t]) \<and>
          map_option tasks (exec body [Push t, Notify_one i, Lock i, Run i] s) = Some []))"
proof -
  have accepted: "fire body (Push t) s = Some (push t s) \<and> tasks (push t s) = tasks s @ [t] \<and>
      submitted (push t s) = submitted s @ [t] \<and> stop (push t s)"
    using assms by (simp add: fire_def push_def)
  have dropped: "dequeued s' = dequeued s \<and> completed s' = completed s \<and>
      take (Suc (length (tasks s))) (tasks s') = tasks s @ [t]"
    if gone: "set (workers s) \<subseteq> {Terminated}" and run: "exec body evs (push t s) = Some s'"
  proof -
    have "set (workers (push t s)) \<subseteq> {Terminated}" using gone by (simp add: push_def)
    moreover have "take (length (tasks s @ [t])) (tasks (push t s)) = tasks s @ [t]"
      by (simp add: push_def)
    ultimately have "dequeued s' = dequeued (push t s) \<and> completed s' = completed (push t s) \<and>
        take (length (tasks s @ [t])) (tasks s') = tasks s @ [t]"
      using run by (rule deserted_forever)
    then show ?thesis by (simp add: push_def)
  qed
  have ready: "map_option completed (exec body [Push t, Lock i, Run i] s) = Some (completed s @ [t]) \<and>
      map_option tasks (exec body [Push t, Lock i, Run i] s) = Some []"
    if "i < length (workers s)" "tasks s = []" "body t (shared s) = Some e'" "workers s ! i = Ready"
    using that assms by (simp add: run_simps)
  have "Waiting \<in> set (workers s)" if "i < length (workers s)" "workers s ! i = Waiting"
    using that nth_mem [of i "workers s"] by simp
  then have waiting: "map_option completed (exec body [Push t, Notify_one i, Lock i, Run i] s) =
        Some (completed s @ [t]) \<and>
      map_option tasks (exec body [Push t, Notify_one i, Lock i, Run i] s) = Some []"
    if "i < length (workers s)" "tasks s = []" "body t (shared s) = Some e'" "workers s ! i = Waiting"
    using that assms by (simp add: run_simps)
  from accepted dropped ready waiting show ?thesis by blast
qed

theorem submit_after_shutdown_accepted_witness:
  "(\<exists>s. exec bench_task [Lock 1, Stop_flag] (ThreadPool 2 0) = Some s \<and>
      stop s \<and> dtor s = Flagged \<and> workers s = [Ready, Waiting] \<and> tasks s = [] \<and>
      fire bench_task (Push 4) s = Some (push 4 s) \<and> tasks (push 4 s) = [4] \<and>
      map_option completed (exec bench_task [Push 4, Lock 0, Run 0] s) = Some [4] \<and>
      map_option completed (exec bench_task [Push 4, Notify_one 1, Lock 1, Run 1] s) = Some [4]) \<and>
   (\<exists>s s'. exec bench_task [Stop_flag, Notify_all, Lock 0] (ThreadPool 1 0) = Some s \<and>
      stop s \<and> dtor s = Joining 0 \<and> workers s = [Terminated] \<and> tasks s = [] \<and>
      exec bench_task [Push 6, Join, Notify_one 0, Return] (push 4 s) = Some s' \<and>
      dtor s' = Destroyed \<and> completed s' = [] \<and> take 1 (tasks s') = [4])"
proof -
  obtain a where a: "exec bench_task [Lock 1, Stop_flag] (ThreadPool 2 0) = Some a"
    "stop a" "dtor a = Flagged" "workers a = [Ready, Waiting]" "tasks a = []" "completed a = []"
    by (simp add: run_simps numeral_2_eq_2)
  from submit_after_shutdown_accepted [of a bench_task 4 "[]" a 0 "shared a + heavy_computation 4"] a
  have a0: "fire bench_task (Push 4) a = Some (push 4 a) \<and> tasks (push 4 a) = [4] \<and>
      map_option completed (exec bench_task [Push 4, Lock 0, Run 0] a) = Some [4]"
    by (simp add: bench_task_def del: exec.simps)
  from submit_after_shutdown_accepted [of a bench_task 4 "[]" a 1 "shared a + heavy_computation 4"] a
  have a1: "map_option completed (exec bench_task [Push 4, Notify_one 1, Lock 1, Run 1] a) = Some [4]"
    by (simp add: bench_task_def del: exec.simps)
  obtain b where b: "exec bench_task [Stop_flag, Notify_all, Lock 0] (ThreadPool 1 0) = Some b"
    "stop b" "dtor b = Joining 0" "workers b = [Terminated]" "tasks b = []" "completed b = []"
    by (simp add: run_simps)
  from b have "\<exists>s'. exec bench_task [Push 6, Join, Notify_one 0, Return] (push 4 b) = Some s' \<and>
      dtor s' = Destroyed"
    by (simp add: run_simps)
  then obtain b' where b': "exec bench_task [Push 6, Join, Notify_one 0, Return] (push 4 b) = Some b'"
    "dtor b' = Destroyed"
    by blast
  from submit_after_shutdown_accepted
    [of b bench_task 4 "[Push 6, Join, Notify_one 0, Return]" b' 0 0] b b'
  have "completed b' = [] \<and> take 1 (tasks b') = [4]" by simp
  with a a0 a1 b b' show ?thesis by blast
qed

text \<open>
  C6 as the specification states it (a submission after shutdown has begun is
  rejected, neither silently accepted nor silently dropped) fails on a pool of one
  worker. After the destructor has set the flag, the submission of task 4 enters the
  queue. In the first run the worker is still there, takes the task and completes it
  before the destructor returns. In the second run the worker has already left and
  been joined: the destructor returns with the task still in the queue.
\<close>

theorem submit_after_shutdown_counterexample:
  "map_option stop (exec bench_task [Stop_flag] (ThreadPool 1 0)) = Some True \<and>
   map_option tasks (exec bench_task [Stop_flag, Push 4] (ThreadPool 1 0)) = Some [4] \<and>
   map_option completed (exec bench_task
     [Stop_flag, Push 4, Notify_one 0, Notify_all, Lock 0, Run 0, Lock 0, Join, Return]
     (ThreadPool 1 0)) = Some [4] \<and>
   map_option dtor (exec bench_task
     [Stop_flag, Notify_all, Lock 0, Join, Push 4, Notify_one 0, Return]
     (ThreadPool 1 0)) = Some Destroyed \<and>
   map_option tasks (exec bench_task
     [Stop_flag, Notify_all, Lock 0, Join, Push 4, Notify_one 0, Return]
     (ThreadPool 1 0)) = Some [4] \<and>
   map_option completed (exec bench_task
     [Stop_flag, Notify_all, Lock 0, Join, Push 4, Notify_one 0, Return]
     (ThreadPool 1 0)) = Some []"
  by (simp add: run_simps bench_task_def)

subsection \<open>A task that throws\<close>

text \<open>
  C7, as the code has it. A worker that holds a task and whose call of it returns is
  back at the top of its loop, the task is completed and the queue is untouched. When
  the call throws, nothing in the pool catches the exception: \<^verbatim>\<open>std::terminate\<close> is
  called and the worker is crashed, with the queue and everything else as it was. In
  every state any later steps of any threads lead to, \<^verbatim>\<open>std::terminate\<close> has been
  called, the worker is still crashed, and it can neither enter its locked block nor
  run a task: it never returns to idle.
\<close>

theorem task_outcome:
  assumes "i < length (workers s)" "workers s ! i = Executing t" "dtor s \<noteq> Destroyed"
  shows "(body t (shared s) = Some e' \<longrightarrow>
      fire body (Run i) s =
        Some (s\<lparr>workers := (workers s)[i := Ready], shared := e',
                completed := completed s @ [t]\<rparr>)) \<and>
    (body t (shared s) = None \<longrightarrow>
      fire body (Run i) s = Some (s\<lparr>workers := (workers s)[i := Crashed t], aborted := True\<rparr>) \<and>
      (exec body evs (s\<lparr>workers := (workers s)[i := Crashed t], aborted := True\<rparr>) = Some s' \<longrightarrow>
         aborted s' \<and> workers s' ! i = Crashed t \<and>
         fire body (Lock i) s' = None \<and> fire body (Run i) s' = None))"
proof -
  let ?c = "s\<lparr>workers := (workers s)[i := Crashed t], aborted := True\<rparr>"
  have step: "fire body (Run i) s = Some (run_task body i t s)"
    using assms by (simp add: fire_def)
  have later: "aborted s' \<and> workers s' ! i = Crashed t \<and>
      fire body (Lock i) s' = None \<and> fire body (Run i) s' = None"
    if run: "exec body evs ?c = Some s'"
  proof -
    have "i < length (workers ?c)" "workers ?c ! i = Crashed t" "aborted ?c"
      using assms(1) by simp_all
    from crashed_forever [OF this run]
    have "i < length (workers s')" "workers s' ! i = Crashed t" "aborted s'" by blast+
    then show ?thesis by (simp add: fire_def)
  qed
  from step later show ?thesis by (simp add: run_task_def)
qed

theorem task_outcome_witness:
  "(\<exists>s. exec sample_body [Push Returning, Lock 1] (ThreadPool 2 (0 :: nat)) = Some s \<and>
      workers s = [Ready, Executing Returning] \<and> dtor s = Live \<and>
      map_option workers (fire sample_body (Run 1) s) = Some [Ready, Ready] \<and>
      map_option completed (fire sample_body (Run 1) s) = Some [Returning]) \<and>
   (\<exists>s c s'. exec sample_body [Push Throwing, Push Returning, Lock 0] (ThreadPool 2 (0 :: nat)) = Some s \<and>
      workers s = [Executing Throwing, Ready] \<and> dtor s = Live \<and>
      fire sample_body (Run 0) s = Some c \<and>
      workers c = [Crashed Throwing, Ready] \<and> tasks c = [Returning] \<and> aborted c \<and>
      exec sample_body [Lock 1, Run 1] c = Some s' \<and>
      completed s' = [Returning] \<and> aborted s' \<and> workers s' = [Crashed Throwing, Ready] \<and>
      fire sample_body (Lock 0) s' = None \<and> fire sample_body (Run 0) s' = None)"
proof -
  obtain a where a: "exec sample_body [Push Returning, Lock 1] (ThreadPool 2 (0 :: nat)) = Some a"
    "workers a = [Ready, Executing Returning]" "dtor a = Live" "completed a = []" "shared a = 0"
    by (simp add: run_simps numeral_2_eq_2)
  from task_outcome [of 1 a Returning sample_body 0 "[]" a] a
  have a1: "map_option workers (fire sample_body (Run 1) a) = Some [Ready, Ready] \<and>
      map_option completed (fire sample_body (Run 1) a) = Some [Returning]"
    by simp
  obtain b where
    b: "exec sample_body [Push Throwing, Push Returning, Lock 0] (ThreadPool 2 (0 :: nat)) = Some b"
    "workers b = [Executing Throwing, Ready]" "dtor b = Live" "tasks b = [Returning]"
    "completed b = []" "shared b = 0"
    by (simp add: run_simps numeral_2_eq_2)
  let ?c = "b\<lparr>workers := (workers b)[0 := Crashed Throwing], aborted := True\<rparr>"
  from b have "\<exists>s'. exec sample_body [Lock 1, Run 1] ?c = Some s' \<and>
      completed s' = [Returning] \<and> workers s' = [Crashed Throwing, Ready]"
    by (simp add: run_simps)
  then obtain b' where b': "exec sample_body [Lock 1, Run 1] ?c = Some b'"
    "completed b' = [Returning]" "workers b' = [Crashed Throwing, Ready]"
    by blast
  from task_outcome [of 0 b Throwing sample_body 0 "[Lock 1, Run 1]" b'] b b'
  have "fire sample_body (Run 0) b = Some ?c \<and> aborted b' \<and>
      fire sample_body (Lock 0) b' = None \<and> fire sample_body (Run 0) b' = None"
    by simp
  moreover from b have "workers ?c = [Crashed Throwing, Ready] \<and> tasks ?c = [Returning] \<and> aborted ?c"
    by simp
  ultimately show ?thesis using a a1 b b' by blast
qed

text \<open>
  C7 as the specification states it (the failure stays with the task, the worker
  thread is not terminated and returns to idle to claim further tasks) fails on a pool
  of two workers with the tasks \<open>Throwing\<close> and \<open>Returning\<close> submitted. Worker 0
  takes \<open>Throwing\<close> and runs it. Afterwards \<^verbatim>\<open>std::terminate\<close> has been called,
  worker 0 is crashed, not \<open>Ready\<close>, the task \<open>Returning\<close> is still queued, and
  worker 0 can neither enter its locked block to take it nor run anything.
\<close>

theorem task_failure_counterexample:
  "map_option aborted (exec sample_body [Push Throwing, Push Returning, Lock 0, Run 0]
     (ThreadPool 2 (0 :: nat))) = Some True \<and>
   map_option workers (exec sample_body [Push Throwing, Push Returning, Lock 0, Run 0]
     (ThreadPool 2 (0 :: nat))) = Some [Crashed Throwing, Ready] \<and>
   map_option tasks (exec sample_body [Push Throwing, Push Returning, Lock 0, Run 0]
     (ThreadPool 2 (0 :: nat))) = Some [Returning] \<and>
   exec sample_body [Push Throwing, Push Returning, Lock 0, Run 0, Lock 0]
     (ThreadPool 2 (0 :: nat)) = None \<and>
   exec sample_body [Push Throwing, Push Returning, Lock 0, Run 0, Run 0]
     (ThreadPool 2 (0 :: nat)) = None"
  by (simp add: run_simps numeral_2_eq_2)

subsection \<open>The flag\<close>

text \<open>
  C8. Shutdown-flag monotonicity. The flag of a new pool is false, and a run that
  starts in any state with the flag set, whatever steps it takes, ends with the flag
  set.
\<close>

theorem flag_monotone:
  "\<not> stop (ThreadPool n e) \<and> (stop s \<longrightarrow> exec body evs s = Some s' \<longrightarrow> stop s')"
proof -
  have "stop s'" if "stop s" "exec body evs s = Some s'"
    using that by (rule exec_invariant [of stop, rotated 1]) (rule flag_step)
  then show ?thesis by (simp add: ThreadPool_def)
qed

theorem flag_monotone_witness:
  "\<not> stop (ThreadPool 1 (0 :: 64 word) :: (nat, 64 word) pool) \<and>
   stop (set_stop (ThreadPool 1 (0 :: 64 word)) :: (nat, 64 word) pool) \<and>
   (\<exists>s'. exec bench_task [Push 4, Notify_all, Lock 0, Notify_one 0, Run 0, Lock 0, Join, Return]
       (set_stop (ThreadPool 1 0)) = Some s' \<and> dtor s' = Destroyed \<and> stop s')"
proof -
  let ?evs = "[Push 4, Notify_all, Lock 0, Notify_one 0, Run 0, Lock 0, Join, Return]"
  let ?s = "set_stop (ThreadPool 1 0) :: (nat, 64 word) pool"
  have s: "stop ?s" by (simp add: set_stop_def)
  obtain s' where run: "exec bench_task ?evs ?s = Some s'" and d: "dtor s' = Destroyed"
    by (simp add: run_simps bench_task_def)
  from flag_monotone [of 1 "0 :: 64 word" ?s bench_task ?evs s'] s run
  have "\<not> stop (ThreadPool 1 (0 :: 64 word) :: (nat, 64 word) pool) \<and> stop s'" by blast
  with s run d show ?thesis by blast
qed

subsection \<open>The counter of the benchmark\<close>

text \<open>
  C9. Benchmark accumulator exactness. In every run of the benchmark (8 workers, the
  100000 tasks of the loop submitted in order before the destructor starts) at the end
  of which the destructor has returned, the counter is the sum of
  \<open>heavy_computation i\<close> over \<open>i < 100000\<close> in 64-bit arithmetic, which is
  2497475025000000, and \<open>heavy_computation n\<close> is \<open>n\<close> times 499500 modulo \<open>2^64\<close>.
\<close>

theorem benchmark_counter:
  assumes run: "exec bench_task evs (ThreadPool NUM_WORKERS 0) = Some s"
    and returned: "dtor s = Destroyed"
    and loop: "submitted s = [0..<NUM_TASKS]"
    and before: "early s = submitted s"
  shows "shared s = (\<Sum>i<NUM_TASKS. heavy_computation i) \<and>
    shared s = 2497475025000000 \<and>
    heavy_computation n = of_nat n * 499500"
proof -
  have "0 < NUM_WORKERS" by (simp add: NUM_WORKERS_def)
  from run_returned [OF run this returned]
  have le: "length (early s) \<le> length (dequeued s)"
    and acc: "mset (map snd (dequeued s)) = mset (completed s)"
    by blast+
  have q: "submitted s = map snd (dequeued s) @ tasks s" by (rule run_queue [OF run])
  with le before have "tasks s = []" by simp
  with q acc loop have "mset (completed s) = mset [0..<NUM_TASKS]" by simp
  then have "sum_list (map heavy_computation (completed s)) =
      sum_list (map heavy_computation [0..<NUM_TASKS])"
    by (rule sum_list_mset_cong)
  also have "\<dots> = (\<Sum>i<NUM_TASKS. heavy_computation i)"
    by (simp add: interv_sum_list_conv_sum_set_nat lessThan_atLeast0)
  finally have "shared s = (\<Sum>i<NUM_TASKS. heavy_computation i)"
    by (simp add: run_counter [OF run])
  with total_value have "shared s = (\<Sum>i<NUM_TASKS. heavy_computation i) \<and>
      shared s = 2497475025000000"
    by simp
  with heavy_computation_eq [of n] show ?thesis by blast
qed

theorem benchmark_counter_witness:
  "\<exists>s. exec bench_task (concat (map serve [0..<NUM_TASKS]) @ teardown)
       (ThreadPool NUM_WORKERS 0) = Some s \<and>
     dtor s = Destroyed \<and> submitted s = [0..<NUM_TASKS] \<and> early s = submitted s \<and>
     shared s = 2497475025000000"
proof -
  let ?evs = "concat (map serve [0..<NUM_TASKS]) @ teardown"
  obtain s where run: "exec bench_task ?evs (ThreadPool NUM_WORKERS 0) = Some s"
    and s: "dtor s = Destroyed" "submitted s = [0..<NUM_TASKS]" "early s = submitted s"
    by (simp add: exec_append serve_all teardown_idle)
  from benchmark_counter [OF run s] have "shared s = 2497475025000000" by blast
  with run s show ?thesis by blast
qed

subsection \<open>A pool without workers\<close>

text \<open>
  C10. Zero-worker edge case. A pool constructed with no worker has no worker in any
  state it reaches, nothing it is given is ever completed and the captured state stays
  as it was: the queue holds every submitted task. From any such state in which the
  destructor has not started, the destructor runs to its return in three steps of its
  own, without waiting for a step of another thread, and the submitted tasks are still
  in the queue when it has returned.
\<close>

theorem zero_workers:
  assumes run: "exec body evs (ThreadPool 0 e) = Some s"
  shows "workers s = [] \<and> completed s = [] \<and> shared s = e \<and> tasks s = submitted s \<and>
    (dtor s = Live \<longrightarrow>
      (\<exists>s'. exec body [Stop_flag, Notify_all, Return] s = Some s' \<and> dtor s' = Destroyed \<and>
         tasks s' = submitted s \<and> completed s' = []))"
proof -
  have inv: "workers s = [] \<and> \<not> aborted s \<and> completed s = [] \<and> dequeued s = [] \<and> shared s = e"
  proof (rule exec_invariant [OF _ _ run])
    show "workers (ThreadPool 0 e) = [] \<and> \<not> aborted (ThreadPool 0 e) \<and>
        completed (ThreadPool 0 e) = [] \<and> dequeued (ThreadPool 0 e) = [] \<and>
        shared (ThreadPool 0 e) = e"
      by (simp add: ThreadPool_def)
  qed (rule idle_step)
  with run_queue [OF run] have q: "tasks s = submitted s" by simp
  have "\<exists>s'. exec body [Stop_flag, Notify_all, Return] s = Some s' \<and> dtor s' = Destroyed \<and>
      tasks s' = submitted s \<and> completed s' = []" if "dtor s = Live"
    using that inv q
    by (simp add: fire_def set_stop_def notify_all_def return_dtor_def)
  with inv q show ?thesis by blast
qed

theorem zero_workers_witness:
  "\<exists>s s'. exec bench_task [Push 4, Notify_one 0, Push 9] (ThreadPool 0 0) = Some s \<and>
     dtor s = Live \<and> tasks s = [4, 9] \<and>
     exec bench_task [Stop_flag, Notify_all, Return] s = Some s' \<and> dtor s' = Destroyed \<and>
     tasks s' = [4, 9] \<and> completed s' = [] \<and> shared s' = 0"
proof -
  obtain s where run: "exec bench_task [Push 4, Notify_one 0, Push 9] (ThreadPool 0 0) = Some s"
    and s: "dtor s = Live" "submitted s = [4, 9]" "shared s = 0"
    by (simp add: run_simps bench_task_def)
  from zero_workers [OF run] s obtain s' where
    "exec bench_task [Stop_flag, Notify_all, Return] s = Some s'" "dtor s' = Destroyed"
    "tasks s' = [4, 9]" "completed s' = []" "tasks s = [4, 9]"
    by auto
  moreover from this(1) s have "shared s' = 0"
    by (auto simp: run_simps split: if_splits phase.splits)
  ultimately show ?thesis using run s by blast
qed

end
